theory Spec2Isabelle
  imports Complex_Main "HOL-Library.Log_Nat"
begin

section \<open>Strings\<close>

text \<open>
  A JavaScript string is a sequence of code units. The model uses \<open>string\<close> (a list of
  \<open>char\<close>) and reads every \<open>char\<close> as the code unit of the same number, so it covers the
  code units U+0000 to U+00FF. Everything the calculator puts on its display is ASCII.
\<close>

definition code :: "char \<Rightarrow> nat" where
  "code c = of_char c"

definition is_digit :: "char \<Rightarrow> bool" where
  "is_digit c = (48 \<le> code c \<and> code c \<le> 57)"

definition is_upper :: "char \<Rightarrow> bool" where
  "is_upper c = (65 \<le> code c \<and> code c \<le> 90)"

definition is_lower :: "char \<Rightarrow> bool" where
  "is_lower c = (97 \<le> code c \<and> code c \<le> 122)"

text \<open>
  White space and line terminators of ECMAScript below U+0100: TAB, LF, VT, FF, CR, SP and
  NBSP. They are what \<open>String.prototype.trim\<close> removes, what \<open>Number(...)\<close> skips around a
  literal, and what the regular expression class \<open>\s\<close> matches.
\<close>

definition is_space :: "char \<Rightarrow> bool" where
  "is_space c = (code c \<in> {9, 10, 11, 12, 13, 32, 160})"

definition trim :: "string \<Rightarrow> string" where
  "trim s = rev (dropWhile is_space (rev (dropWhile is_space s)))"

definition digit_char :: "nat \<Rightarrow> char" where
  "digit_char d = char_of (48 + d)"

definition digit_val :: "char \<Rightarrow> nat" where
  "digit_val c =
     (if is_digit c then code c - 48
      else if is_upper c then code c - 55
      else code c - 87)"

text \<open>The value of a digit string in a radix, most significant digit first.\<close>

definition radix_val :: "int \<Rightarrow> string \<Rightarrow> int" where
  "radix_val b s = foldl (\<lambda>acc c. acc * b + int (digit_val c)) 0 s"

text \<open>The decimal digits of a non-negative integer, most significant digit first.\<close>

function int_digits :: "int \<Rightarrow> string" where
  "int_digits n =
     (if n < 10 then [digit_char (nat n)]
      else int_digits (n div 10) @ [digit_char (nat (n mod 10))])"
  by pat_completeness auto
termination
  by (relation "measure nat") auto

declare int_digits.simps [simp del]

section \<open>Numbers\<close>

text \<open>
  A JavaScript number is an IEEE 754 binary64 value: not-a-number, the two infinities, the
  negative zero, or a finite value, which is a rational number (\<open>Num 0\<close> is the positive zero).
  Every operation computes the exact rational result and rounds it to the nearest
  representable value, ties to the even significand, as IEEE 754 prescribes.
\<close>

datatype number = NaN | PosInf | NegInf | NegZero | Num rat

definition pow2 :: "int \<Rightarrow> rat" where
  "pow2 e = (if 0 \<le> e then of_int (2 ^ nat e) else 1 / of_int (2 ^ nat (- e)))"

definition pow10 :: "int \<Rightarrow> rat" where
  "pow10 e = (if 0 \<le> e then of_int (10 ^ nat e) else 1 / of_int (10 ^ nat (- e)))"

text \<open>For \<open>a > 0\<close>: the integer \<open>e\<close> with \<open>2 ^ e \<le> a < 2 ^ (e + 1)\<close>.\<close>

definition floor_log2 :: "rat \<Rightarrow> int" where
  "floor_log2 a =
     (let (n, d) = quotient_of a; t = bitlen n - bitlen d
      in if pow2 t \<le> a then t else t - 1)"

text \<open>For \<open>a > 0\<close>: the integer \<open>e\<close> with \<open>10 ^ e \<le> a < 10 ^ (e + 1)\<close>.\<close>

definition floor_log10 :: "rat \<Rightarrow> int" where
  "floor_log10 a =
     (let (n, d) = quotient_of a;
          t = int (length (int_digits n)) - int (length (int_digits d))
      in if pow10 t \<le> a then t else t - 1)"

definition round_half_even :: "rat \<Rightarrow> int" where
  "round_half_even m =
     (let f = \<lfloor>m\<rfloor>; r = m - of_int f
      in if r < 1 / 2 then f
         else if 1 / 2 < r then f + 1
         else if even f then f else f + 1)"

text \<open>
  Rounding of an exact result to binary64. The value is \<open>m * 2 ^ (e - 52)\<close> with an
  integer significand \<open>m\<close> of at most 53 bits and an exponent \<open>e\<close> from -1022 (below
  it the values are subnormal, spaced \<open>2 ^ -1074\<close> apart) to 1023. A significand that
  rounds up to \<open>2 ^ 53\<close> carries into the next exponent; a result of \<open>2 ^ 1024\<close> or more
  overflows to an infinity, and a result of 0 keeps the sign.
\<close>

definition round_double :: "rat \<Rightarrow> number" where
  "round_double q =
     (if q = 0 then Num 0
      else
        let a = \<bar>q\<bar>;
            e = max (floor_log2 a) (- 1022);
            ulp = pow2 (e - 52);
            m = round_half_even (a / ulp);
            v = of_int m * ulp
        in if 1023 < e \<or> (e = 1023 \<and> 2 ^ 53 \<le> m) then (if q < 0 then NegInf else PosInf)
           else if m = 0 then (if q < 0 then NegZero else Num 0)
           else Num (if q < 0 then - v else v))"

definition is_finite :: "number \<Rightarrow> bool" where
  "is_finite n = (case n of Num q \<Rightarrow> True | NegZero \<Rightarrow> True | _ \<Rightarrow> False)"

definition is_zero :: "number \<Rightarrow> bool" where
  "is_zero n = (n = Num 0 \<or> n = NegZero)"

definition is_negative :: "number \<Rightarrow> bool" where
  "is_negative n = (case n of Num q \<Rightarrow> q < 0 | NegZero \<Rightarrow> True | NegInf \<Rightarrow> True | _ \<Rightarrow> False)"

definition signed_zero :: "bool \<Rightarrow> number" where
  "signed_zero neg = (if neg then NegZero else Num 0)"

definition signed_inf :: "bool \<Rightarrow> number" where
  "signed_inf neg = (if neg then NegInf else PosInf)"

fun fneg :: "number \<Rightarrow> number" where
  "fneg NaN = NaN"
| "fneg PosInf = NegInf"
| "fneg NegInf = PosInf"
| "fneg NegZero = Num 0"
| "fneg (Num q) = (if q = 0 then NegZero else Num (- q))"

fun fadd :: "number \<Rightarrow> number \<Rightarrow> number" where
  "fadd NaN y = NaN"
| "fadd x NaN = NaN"
| "fadd PosInf y = (if y = NegInf then NaN else PosInf)"
| "fadd NegInf y = (if y = PosInf then NaN else NegInf)"
| "fadd x PosInf = PosInf"
| "fadd x NegInf = NegInf"
| "fadd NegZero y = y"
| "fadd x NegZero = x"
| "fadd (Num a) (Num b) = round_double (a + b)"

definition fsub :: "number \<Rightarrow> number \<Rightarrow> number" where
  "fsub x y = fadd x (fneg y)"

definition fmul :: "number \<Rightarrow> number \<Rightarrow> number" where
  "fmul x y =
     (if x = NaN \<or> y = NaN then NaN
      else
        let neg = (is_negative x \<noteq> is_negative y)
        in if \<not> is_finite x \<or> \<not> is_finite y
           then (if is_zero x \<or> is_zero y then NaN else signed_inf neg)
           else if is_zero x \<or> is_zero y then signed_zero neg
           else (case (x, y) of (Num a, Num b) \<Rightarrow> round_double (a * b) | _ \<Rightarrow> NaN))"

definition fdiv :: "number \<Rightarrow> number \<Rightarrow> number" where
  "fdiv x y =
     (if x = NaN \<or> y = NaN then NaN
      else
        let neg = (is_negative x \<noteq> is_negative y)
        in if \<not> is_finite x then (if is_finite y then signed_inf neg else NaN)
           else if \<not> is_finite y then signed_zero neg
           else if is_zero y then (if is_zero x then NaN else signed_inf neg)
           else if is_zero x then signed_zero neg
           else (case (x, y) of (Num a, Num b) \<Rightarrow> round_double (a / b) | _ \<Rightarrow> NaN))"

section \<open>Numbers from strings\<close>

text \<open>
  \<open>Number(s)\<close> applied to a string (ECMAScript StringToNumber): white space around the
  literal is skipped, the empty string is 0, a literal is a binary, octal or hexadecimal
  integer without sign, or an optionally signed \<open>Infinity\<close> or decimal literal
  (digits, with an optional fraction and an optional exponent; one of the integer part and
  the fraction may be missing). Anything else is NaN. The mathematical value of the literal
  is rounded to binary64.
\<close>

definition is_radix_digit :: "int \<Rightarrow> char \<Rightarrow> bool" where
  "is_radix_digit b c =
     ((is_digit c \<or> is_upper c \<or> is_lower c) \<and> int (digit_val c) < b)"

definition parse_radix :: "int \<Rightarrow> string \<Rightarrow> number" where
  "parse_radix b s =
     (if s \<noteq> [] \<and> list_all (is_radix_digit b) s
      then round_double (of_int (radix_val b s)) else NaN)"

text \<open>The exponent part of a decimal literal: nothing, or e or E and a signed integer.\<close>

definition parse_exponent :: "string \<Rightarrow> int option" where
  "parse_exponent r =
     (case r of
        [] \<Rightarrow> Some 0
      | c # t \<Rightarrow>
          if c = CHR ''e'' \<or> c = CHR ''E'' then
            (let (neg, ds) =
                   (case t of
                      [] \<Rightarrow> (False, [])
                    | d # u \<Rightarrow>
                        if d = CHR ''-'' then (True, u)
                        else if d = CHR ''+'' then (False, u)
                        else (False, t))
             in if ds \<noteq> [] \<and> list_all is_digit ds
                then Some (if neg then - radix_val 10 ds else radix_val 10 ds)
                else None)
          else None)"

definition parse_unsigned_decimal :: "string \<Rightarrow> rat option" where
  "parse_unsigned_decimal s =
     (let ip = takeWhile is_digit s;
          r1 = dropWhile is_digit s;
          (fp, r2) =
            (case r1 of
               [] \<Rightarrow> ([], [])
             | c # t \<Rightarrow>
                 if c = CHR ''.'' then (takeWhile is_digit t, dropWhile is_digit t)
                 else ([], r1))
      in if ip = [] \<and> fp = [] then None
         else (case parse_exponent r2 of
                 None \<Rightarrow> None
               | Some ex \<Rightarrow>
                   Some (of_int (radix_val 10 (ip @ fp)) * pow10 (ex - int (length fp)))))"

definition parse_decimal :: "string \<Rightarrow> number" where
  "parse_decimal t =
     (let (neg, u) =
            (case t of
               [] \<Rightarrow> (False, [])
             | c # r \<Rightarrow>
                 if c = CHR ''-'' then (True, r)
                 else if c = CHR ''+'' then (False, r)
                 else (False, t))
      in if u = ''Infinity'' then signed_inf neg
         else (case parse_unsigned_decimal u of
                 None \<Rightarrow> NaN
               | Some q \<Rightarrow>
                   if q = 0 then signed_zero neg
                   else round_double (if neg then - q else q)))"

definition string_to_number :: "string \<Rightarrow> number" where
  "string_to_number s =
     (let t = trim s
      in if t = [] then Num 0
         else if take 2 t = ''0x'' \<or> take 2 t = ''0X'' then parse_radix 16 (drop 2 t)
         else if take 2 t = ''0o'' \<or> take 2 t = ''0O'' then parse_radix 8 (drop 2 t)
         else if take 2 t = ''0b'' \<or> take 2 t = ''0B'' then parse_radix 2 (drop 2 t)
         else parse_decimal t)"

section \<open>Strings from numbers\<close>

text \<open>
  \<open>String(x)\<close> (ECMAScript Number::toString, radix 10) writes the shortest digit string
  \<open>s\<close> of \<open>k\<close> digits and the exponent \<open>n\<close> with \<open>s * 10 ^ (n - k)\<close> rounding to \<open>x\<close>;
  among several of that length, the one closest to \<open>x\<close>. For a given \<open>k\<close> only the two
  \<open>k\<close>-digit decimals around \<open>x\<close> can qualify. Seventeen digits identify every binary64
  value, so the search succeeds at \<open>k = 17\<close> at the latest.
\<close>

definition rounds_to :: "rat \<Rightarrow> rat \<Rightarrow> bool" where
  "rounds_to x d = (round_double d = Num x)"

definition digits_at :: "rat \<Rightarrow> int \<Rightarrow> nat \<Rightarrow> int option" where
  "digits_at x n0 k =
     (let scale = pow10 (n0 - int k);
          lo = \<lfloor>x / scale\<rfloor>;
          hi = lo + 1;
          ok_lo = rounds_to x (of_int lo * scale);
          ok_hi = rounds_to x (of_int hi * scale);
          dl = x - of_int lo * scale;
          dh = of_int hi * scale - x
      in if ok_lo \<and> ok_hi then
           Some (if dl < dh then lo else if dh < dl then hi else if even lo then lo else hi)
         else if ok_lo then Some lo
         else if ok_hi then Some hi
         else None)"

function shortest_digits :: "rat \<Rightarrow> int \<Rightarrow> nat \<Rightarrow> int \<times> nat" where
  "shortest_digits x n0 k =
     (if 17 < k then (\<lfloor>x / pow10 (n0 - int k)\<rfloor>, k)
      else (case digits_at x n0 k of
              Some s \<Rightarrow> (s, k)
            | None \<Rightarrow> shortest_digits x n0 (Suc k)))"
  by pat_completeness auto
termination
  by (relation "measure (\<lambda>(x, n0, k). 18 - k)") auto

declare shortest_digits.simps [simp del]

text \<open>
  The digit string and the exponent \<open>n\<close> of a positive finite \<open>x\<close>. When the upper
  neighbour is the power of ten \<open>10 ^ k\<close>, its digit string is that of \<open>10 ^ (k - 1)\<close>, one
  decimal place higher.
\<close>

definition decimal_repr :: "rat \<Rightarrow> string \<times> int" where
  "decimal_repr x =
     (let n0 = floor_log10 x + 1;
          (s, k) = shortest_digits x n0 1
      in if s = 10 ^ k then (int_digits (s div 10), n0 + 1) else (int_digits s, n0))"

definition layout :: "string \<Rightarrow> int \<Rightarrow> string" where
  "layout ds n =
     (let k = int (length ds)
      in if k \<le> n \<and> n \<le> 21 then ds @ replicate (nat (n - k)) CHR ''0''
         else if 0 < n \<and> n \<le> 21 then take (nat n) ds @ ''.'' @ drop (nat n) ds
         else if - 6 < n \<and> n \<le> 0 then ''0.'' @ replicate (nat (- n)) CHR ''0'' @ ds
         else
           (let e = n - 1;
                ex = (if e < 0 then ''-'' else ''+'') @ int_digits \<bar>e\<bar>
            in if k = 1 then ds @ ''e'' @ ex
               else take 1 ds @ ''.'' @ drop 1 ds @ ''e'' @ ex))"

definition positive_to_string :: "rat \<Rightarrow> string" where
  "positive_to_string x = (let (ds, n) = decimal_repr x in layout ds n)"

fun number_to_string :: "number \<Rightarrow> string" where
  "number_to_string NaN = ''NaN''"
| "number_to_string PosInf = ''Infinity''"
| "number_to_string NegInf = ''-Infinity''"
| "number_to_string NegZero = ''0''"
| "number_to_string (Num q) =
     (if q = 0 then ''0''
      else if q < 0 then ''-'' @ positive_to_string (- q)
      else positive_to_string q)"

text \<open>
  \<open>x.toFixed(f)\<close> for a finite \<open>x\<close>: the sign, then the integer \<open>n\<close> nearest to
  \<open>|x| * 10 ^ f\<close> (the larger one of two), written with at least \<open>f + 1\<close> digits and a point
  before the last \<open>f\<close>. From \<open>10 ^ 21\<close> on, and for a value that is not finite, the result
  is \<open>String(x)\<close>.
\<close>

definition fixed_digits :: "nat \<Rightarrow> rat \<Rightarrow> string" where
  "fixed_digits f x =
     (let n = \<lfloor>x * 10 ^ f + 1 / 2\<rfloor>;
          m = int_digits n;
          m' = replicate (f + 1 - length m) CHR ''0'' @ m
      in if f = 0 then m
         else take (length m' - f) m' @ ''.'' @ drop (length m' - f) m')"

definition toFixed :: "number \<Rightarrow> nat \<Rightarrow> string" where
  "toFixed x f =
     (case x of
        Num q \<Rightarrow>
          if 10 ^ 21 \<le> \<bar>q\<bar> then number_to_string x
          else if q < 0 then ''-'' @ fixed_digits f (- q)
          else fixed_digits f q
      | NegZero \<Rightarrow> fixed_digits f 0
      | _ \<Rightarrow> number_to_string x)"

section \<open>The calculator\<close>

datatype Op = Plus | Minus | Times | Divide

record State =
  display :: string
  acc :: "number option"
  op :: "Op option"
  entering :: bool
  justEvaluated :: bool

datatype Action =
    DIGIT string
  | DOT
  | CLEAR
  | TOGGLE_SIGN
  | PERCENT
  | OP Op
  | EQUALS

definition initialState :: State where
  "initialState =
     \<lparr>display = ''0'', acc = None, op = None, entering = True, justEvaluated = False\<rparr>"

definition toNumber :: "string \<Rightarrow> number" where
  "toNumber shown =
     (let n = string_to_number shown in if is_finite n then n else Num 0)"

text \<open>
  \<open>fixed.replace(/\.?0+$/, "")\<close> removes the leftmost match of the pattern: the first
  suffix that is an optional point followed by one or more zeros.
\<close>

definition matches_tail :: "string \<Rightarrow> bool" where
  "matches_tail s =
     (let zs = (case s of [] \<Rightarrow> [] | c # t \<Rightarrow> if c = CHR ''.'' then t else s)
      in zs \<noteq> [] \<and> list_all (\<lambda>c. c = CHR ''0'') zs)"

fun strip_tail :: "string \<Rightarrow> string" where
  "strip_tail [] = []"
| "strip_tail (c # t) = (if matches_tail (c # t) then [] else c # strip_tail t)"

definition formatNumber :: "number \<Rightarrow> string" where
  "formatNumber n0 =
     (if \<not> is_finite n0 then ''Error''
      else
        let n = (if n0 = NegZero then Num 0 else n0);
            s = number_to_string n
        in if CHR ''e'' \<in> set s then s
           else if CHR ''.'' \<in> set s then strip_tail (toFixed n 10)
           else s)"

fun applyOp :: "number \<Rightarrow> number \<Rightarrow> Op \<Rightarrow> number" where
  "applyOp a b Plus = fadd a b"
| "applyOp a b Minus = fsub a b"
| "applyOp a b Times = fmul a b"
| "applyOp a b Divide = (if is_zero b then NaN else fdiv a b)"

text \<open>
  The reducer, one equation for each case of the source's \<open>switch\<close>. A pending operator
  is \<open>null\<close> or one of four non-empty strings, so \<open>state.op && ...\<close> and \<open>!state.op\<close>
  test whether one is present; \<open>state.acc ?? cur\<close> is the accumulator unless it is
  \<open>null\<close>. \<open>{...state, f: v}\<close> is a record update, an object literal without the spread
  a new record.
\<close>

fun reducer :: "State \<Rightarrow> Action \<Rightarrow> State" where
  "reducer state CLEAR = initialState"
| "reducer state (DIGIT digit) =
     (let startFresh = (justEvaluated state \<and> op state = None \<and> acc state = None)
      in if \<not> entering state \<or> startFresh then
           state\<lparr>display := digit, entering := True, justEvaluated := False\<rparr>
         else if display state = ''0'' then
           state\<lparr>display := digit, justEvaluated := False\<rparr>
         else
           state\<lparr>display := display state @ digit, justEvaluated := False\<rparr>)"
| "reducer state DOT =
     (let startFresh = (justEvaluated state \<and> op state = None \<and> acc state = None)
      in if \<not> entering state \<or> startFresh then
           state\<lparr>display := ''0.'', entering := True, justEvaluated := False\<rparr>
         else if CHR ''.'' \<in> set (display state) then state
         else state\<lparr>display := display state @ ''.'', justEvaluated := False\<rparr>)"
| "reducer state TOGGLE_SIGN =
     (if display state = ''0'' then state
      else
        let n = fneg (toNumber (display state))
        in state\<lparr>display := formatNumber n, justEvaluated := False\<rparr>)"
| "reducer state PERCENT =
     (let n = fdiv (toNumber (display state)) (Num 100)
      in state\<lparr>display := formatNumber n, justEvaluated := False\<rparr>)"
| "reducer state (OP new_op) =
     (let cur = toNumber (display state)
      in case (op state, acc state, entering state) of
           (Some pending, Some a, True) \<Rightarrow>
             (let nextAcc = applyOp a cur pending
              in \<lparr>display = formatNumber nextAcc, acc = Some nextAcc, op = Some new_op,
                  entering = False, justEvaluated = False\<rparr>)
         | _ \<Rightarrow>
             (let nextAcc = (case acc state of None \<Rightarrow> cur | Some a \<Rightarrow> a)
              in state\<lparr>acc := Some nextAcc, op := Some new_op, entering := False,
                   justEvaluated := False\<rparr>))"
| "reducer state EQUALS =
     (case (op state, acc state) of
        (Some pending, Some a) \<Rightarrow>
          (let result = applyOp a (toNumber (display state)) pending
           in \<lparr>display = formatNumber result, acc = None, op = None,
               entering = False, justEvaluated = True\<rparr>)
      | _ \<Rightarrow> state\<lparr>justEvaluated := True, entering := False\<rparr>)"

text \<open>The state after a sequence of key presses, from a given state.\<close>

definition run :: "State \<Rightarrow> Action list \<Rightarrow> State" where
  "run s as = foldl reducer s as"

section \<open>The VIN text utility\<close>

text \<open>
  \<open>String.prototype.toUpperCase\<close> on the code units below U+0100: the ASCII letters and
  the accented Latin-1 letters move down by 32, the sharp s (U+00DF) becomes the two
  letters \<open>SS\<close>, and the rest is unchanged. The upper-case forms of U+00B5 and U+00FF are
  single code units above U+00FF; the model leaves these two as they are. Like their
  images they are not alphanumeric, and every use of \<open>toUpperCase\<close> below is followed by
  the replacement of each code unit outside \<open>[A-Z0-9]\<close>, which treats both alike.
\<close>

definition upper_char :: "char \<Rightarrow> string" where
  "upper_char c =
     (if is_lower c then [char_of (code c - 32)]
      else if code c = 223 then ''SS''
      else if 224 \<le> code c \<and> code c \<le> 254 \<and> code c \<noteq> 247 then [char_of (code c - 32)]
      else [c])"

definition toUpperCase :: "string \<Rightarrow> string" where
  "toUpperCase s = concat (map upper_char s)"

text \<open>The character class \<open>[A-Z0-9]\<close> and the test \<open>/[IOQ]/.test(v)\<close>.\<close>

definition is_alnum :: "char \<Rightarrow> bool" where
  "is_alnum c = (is_upper c \<or> is_digit c)"

definition has_IOQ :: "string \<Rightarrow> bool" where
  "has_IOQ v = list_ex (\<lambda>c. c = CHR ''I'' \<or> c = CHR ''O'' \<or> c = CHR ''Q'') v"

definition normalizeVin :: "string \<Rightarrow> string" where
  "normalizeVin input = filter is_alnum (toUpperCase (trim input))"

definition validateVin :: "string \<Rightarrow> string option" where
  "validateVin v =
     (if length v = 0 then None
      else if length v \<noteq> 17 then Some ''VIN must be exactly 17 characters.''
      else if has_IOQ v then Some ''VIN cannot contain I, O, or Q.''
      else None)"







section \<open>Reachable states\<close>

text \<open>
  The keys of the screen dispatch \<open>DIGIT\<close> only with one of the ten digit keys; the type of
  the action allows any string. \<open>reachable\<close> follows the type, \<open>reachable_by_keys\<close> the
  keys.
\<close>

definition is_key_digit :: "string \<Rightarrow> bool" where
  "is_key_digit d = (case d of [c] \<Rightarrow> is_digit c | _ \<Rightarrow> False)"

fun key_action :: "Action \<Rightarrow> bool" where
  "key_action (DIGIT d) = is_key_digit d"
| "key_action a = True"

inductive reachable :: "State \<Rightarrow> bool" where
  reachable_init: "reachable initialState"
| reachable_step: "reachable s \<Longrightarrow> reachable (reducer s a)"

inductive reachable_by_keys :: "State \<Rightarrow> bool" where
  keys_init: "reachable_by_keys initialState"
| keys_step: "reachable_by_keys s \<Longrightarrow> key_action a \<Longrightarrow> reachable_by_keys (reducer s a)"

section \<open>What the display can show\<close>

text \<open>
  The claim about the display, in its own words: the display is the string \<open>Error\<close>, or a
  numeric literal, or a numeric literal followed by a decimal point. A numeric literal is
  read generously, as every signed decimal literal that \<open>Number\<close> accepts (digits, an
  optional fraction, an optional exponent).
\<close>

definition numeric_literal :: "string \<Rightarrow> bool" where
  "numeric_literal s =
     (case s of
        [] \<Rightarrow> False
      | c # u \<Rightarrow>
          if c = CHR ''-'' \<or> c = CHR ''+'' then parse_unsigned_decimal u \<noteq> None
          else parse_unsigned_decimal s \<noteq> None)"

definition valid_display :: "string \<Rightarrow> bool" where
  "valid_display s =
     (s = ''Error'' \<or> numeric_literal s
      \<or> (s \<noteq> [] \<and> last s = CHR ''.'' \<and> numeric_literal (butlast s)))"

text \<open>
  Two kinds of text, for the proofs about the display. A plain literal is an optional
  minus sign, one or more digits, and optionally a point followed by any number of digits.
  An exponent text contains the exponent mark \<open>e\<close> and has no character other than the
  digits, the point, the two signs and \<open>e\<close>.
\<close>

definition sci_char :: "char \<Rightarrow> bool" where
  "sci_char c =
     (is_digit c \<or> c = CHR ''.'' \<or> c = CHR ''-'' \<or> c = CHR ''+'' \<or> c = CHR ''e'')"

definition unsigned_plain :: "string \<Rightarrow> bool" where
  "unsigned_plain u =
     (takeWhile is_digit u \<noteq> [] \<and>
      (case dropWhile is_digit u of
         [] \<Rightarrow> True
       | c # fp \<Rightarrow> c = CHR ''.'' \<and> list_all is_digit fp))"

definition plain_literal :: "string \<Rightarrow> bool" where
  "plain_literal s =
     (case s of
        [] \<Rightarrow> False
      | c # u \<Rightarrow> if c = CHR ''-'' then unsigned_plain u else unsigned_plain s)"

definition sci_text :: "string \<Rightarrow> bool" where
  "sci_text s = (CHR ''e'' \<in> set s \<and> list_all sci_char s)"

text \<open>The invariant of the reducer: \<open>Error\<close> is shown only while no operand is entered.\<close>

definition display_inv :: "State \<Rightarrow> bool" where
  "display_inv s =
     ((display s = ''Error'' \<and> \<not> entering s) \<or> plain_literal (display s)
      \<or> sci_text (display s))"

text \<open>The three shapes of a written number, without its sign.\<close>

definition digits_only :: "string \<Rightarrow> bool" where
  "digits_only s = (s \<noteq> [] \<and> list_all is_digit s)"

definition pointed :: "string \<Rightarrow> bool" where
  "pointed s = (\<exists>ip fp. s = ip @ CHR ''.'' # fp \<and> ip \<noteq> [] \<and> list_all is_digit ip
     \<and> list_all is_digit fp)"

definition exponent_form :: "string \<Rightarrow> bool" where
  "exponent_form s = (CHR ''e'' \<in> set s \<and> list_all sci_char s)"

text \<open>A finite number within the range of binary64.\<close>

definition bounded :: "number \<Rightarrow> bool" where
  "bounded n = (case n of Num v \<Rightarrow> \<bar>v\<bar> < pow2 1024 | NegZero \<Rightarrow> True | _ \<Rightarrow> False)"

section \<open>Extraction as the specification describes it\<close>






lemma run_snoc: "run s (as @ [a]) = reducer (run s as) a"
  by (simp add: run_def)

lemma reachable_run: "reachable (run initialState as)"
proof (induction as rule: rev_induct)
  case Nil
  show ?case by (simp add: run_def reachable_init)
next
  case (snoc a as)
  then show ?case by (simp add: run_snoc reachable_step)
qed

lemma reachable_by_keys_run: "list_all key_action as \<Longrightarrow> reachable_by_keys (run initialState as)"
proof (induction as rule: rev_induct)
  case Nil
  show ?case by (simp add: run_def keys_init)
next
  case (snoc a as)
  then show ?case by (simp add: run_snoc keys_step)
qed

lemma reachable_by_keys_reachable: "reachable_by_keys s \<Longrightarrow> reachable s"
  by (induction rule: reachable_by_keys.induct) (auto intro: reachable.intros)

section \<open>The pending operator and the accumulator\<close>

text \<open>One step keeps the pairing of the pending operator with the accumulator.\<close>

lemma reducer_paired:
  "(op s = None) = (acc s = None) \<Longrightarrow> (op (reducer s a) = None) = (acc (reducer s a) = None)"
  by (cases a) (auto simp: initialState_def Let_def split: option.splits bool.splits)

text \<open>
  C5. In every state reachable from the initial state, by any sequence of actions, the
  pending operator is present if and only if the accumulator is present.
\<close>

theorem pending_iff_accumulator:
  "reachable s \<Longrightarrow> (op s \<noteq> None) = (acc s \<noteq> None)"
proof (induction rule: reachable.induct)
  case reachable_init
  show ?case by (simp add: initialState_def)
next
  case (reachable_step s a)
  then have "(op s = None) = (acc s = None)" by auto
  from reducer_paired [OF this] show ?case by auto
qed

theorem pending_iff_accumulator_witness:
  "(op (run initialState [DIGIT ''3'', OP Plus, DIGIT ''4'']) \<noteq> None)
     = (acc (run initialState [DIGIT ''3'', OP Plus, DIGIT ''4'']) \<noteq> None)
   \<and> op (run initialState [DIGIT ''3'', OP Plus, DIGIT ''4'']) = Some Plus"
proof -
  have "op (run initialState [DIGIT ''3'', OP Plus, DIGIT ''4'']) = Some Plus"
    by code_simp
  with pending_iff_accumulator [OF reachable_run [of "[DIGIT ''3'', OP Plus, DIGIT ''4'']"]]
  show ?thesis by simp
qed

section \<open>Percent\<close>

text \<open>
  C6. For every state, Percent sets the display to the formatted value of the display
  divided by 100 and clears \<open>justEvaluated\<close>; the accumulator, the pending operator and
  \<open>entering\<close> stay as they were.
\<close>

theorem percent_frame:
  "display (reducer s PERCENT) = formatNumber (fdiv (toNumber (display s)) (Num 100))
   \<and> justEvaluated (reducer s PERCENT) = False
   \<and> acc (reducer s PERCENT) = acc s
   \<and> op (reducer s PERCENT) = op s
   \<and> entering (reducer s PERCENT) = entering s"
  by (simp add: Let_def)

theorem percent_frame_witness:
  "display (reducer (run initialState [DIGIT ''5'', DIGIT ''0'']) PERCENT) = ''0.5''
   \<and> acc (reducer (run initialState [DIGIT ''5'', DIGIT ''0'']) PERCENT) = None
   \<and> entering (reducer (run initialState [DIGIT ''5'', DIGIT ''0'']) PERCENT) = True"
proof -
  have s: "run initialState [DIGIT ''5'', DIGIT ''0'']
      = \<lparr>display = ''50'', acc = None, op = None, entering = True, justEvaluated = False\<rparr>"
    by code_simp
  have v: "formatNumber (fdiv (toNumber ''50'') (Num 100)) = ''0.5''"
    by code_simp
  show ?thesis
    using percent_frame [of "run initialState [DIGIT ''5'', DIGIT ''0'']"]
    by (simp add: s v)
qed

section \<open>Equals\<close>

text \<open>
  C10. Equals pressed again does not repeat the last operation: in every state, two
  Equals in a row leave the display (indeed the whole state) that one Equals leaves. An
  Equals that evaluates clears the accumulator and the pending operator, so the next one
  finds nothing to evaluate; after 3, +, 4 the display is 7 both times.
\<close>

theorem equals_twice:
  "reducer (reducer s EQUALS) EQUALS = reducer s EQUALS
   \<and> (op s \<noteq> None \<and> acc s \<noteq> None \<longrightarrow>
        op (reducer s EQUALS) = None \<and> acc (reducer s EQUALS) = None)
   \<and> display (reducer (reducer s EQUALS) EQUALS) = display (reducer s EQUALS)
   \<and> display (run initialState [DIGIT ''3'', OP Plus, DIGIT ''4'', EQUALS]) = ''7''
   \<and> display (run initialState [DIGIT ''3'', OP Plus, DIGIT ''4'', EQUALS, EQUALS]) = ''7''"
proof -
  have "reducer (reducer s EQUALS) EQUALS = reducer s EQUALS"
    by (cases "op s"; cases "acc s") (simp_all add: Let_def)
  moreover have "op s \<noteq> None \<and> acc s \<noteq> None \<longrightarrow>
      op (reducer s EQUALS) = None \<and> acc (reducer s EQUALS) = None"
    by (auto simp: Let_def)
  moreover have "display (run initialState [DIGIT ''3'', OP Plus, DIGIT ''4'', EQUALS]) = ''7''"
    by code_simp
  moreover have
    "display (run initialState [DIGIT ''3'', OP Plus, DIGIT ''4'', EQUALS, EQUALS]) = ''7''"
    by code_simp
  ultimately show ?thesis by simp
qed

theorem equals_twice_witness:
  "reducer (reducer (run initialState [DIGIT ''9'', OP Minus, DIGIT ''2'']) EQUALS) EQUALS
     = \<lparr>display = ''7'', acc = None, op = None, entering = False, justEvaluated = True\<rparr>"
proof -
  have "reducer (run initialState [DIGIT ''9'', OP Minus, DIGIT ''2'']) EQUALS
      = \<lparr>display = ''7'', acc = None, op = None, entering = False, justEvaluated = True\<rparr>"
    by code_simp
  with equals_twice [of "run initialState [DIGIT ''9'', OP Minus, DIGIT ''2'']", THEN conjunct1]
  show ?thesis by simp
qed

section \<open>Chained operators\<close>

text \<open>
  C3. From the initial state the keys 3, +, 4, *, 2, = leave 14 on the display. An
  operator pressed while an operator is pending, an accumulator exists and an operand is
  being entered evaluates the pending operator on the accumulator and the display at once;
  the result is the new accumulator and, formatted, the new display, and the pressed
  operator becomes the pending one.
\<close>

theorem chained_operator:
  "display (run initialState
      [DIGIT ''3'', OP Plus, DIGIT ''4'', OP Times, DIGIT ''2'', EQUALS]) = ''14''
   \<and> (op s = Some pending \<and> acc s = Some a \<and> entering s \<longrightarrow>
        reducer s (OP new_op) =
          \<lparr>display = formatNumber (applyOp a (toNumber (display s)) pending),
           acc = Some (applyOp a (toNumber (display s)) pending),
           op = Some new_op, entering = False, justEvaluated = False\<rparr>)"
proof -
  have "display (run initialState
      [DIGIT ''3'', OP Plus, DIGIT ''4'', OP Times, DIGIT ''2'', EQUALS]) = ''14''"
    by code_simp
  then show ?thesis by (simp add: Let_def)
qed

theorem chained_operator_witness:
  "reducer (run initialState [DIGIT ''3'', OP Plus, DIGIT ''4'']) (OP Times) =
     \<lparr>display = ''7'', acc = Some (Num 7), op = Some Times, entering = False,
      justEvaluated = False\<rparr>"
proof -
  let ?s = "run initialState [DIGIT ''3'', OP Plus, DIGIT ''4'']"
  have s: "?s = \<lparr>display = ''4'', acc = Some (Num 3), op = Some Plus, entering = True,
      justEvaluated = False\<rparr>"
    by code_simp
  have v: "fadd (Num 3) (toNumber ''4'') = Num 7" "formatNumber (Num 7) = ''7''"
    by code_simp+
  from s have "op ?s = Some Plus \<and> acc ?s = Some (Num 3) \<and> entering ?s"
    by simp
  with chained_operator [of ?s Plus "Num 3" Times] show ?thesis
    by (simp add: s v)
qed

section \<open>After an error\<close>

lemma digit_cases:
  assumes "is_digit c"
  shows "c \<in> set ''0123456789''"
proof -
  have c: "c = char_of (code c)"
    by (simp add: code_def)
  from assms have "code c \<in> {48, 49, 50, 51, 52, 53, 54, 55, 56, 57}"
    unfolding is_digit_def by (simp; arith)
  then show ?thesis
    by (subst c) (elim insertE emptyE; simp add: char_of_def bit_0)
qed

lemma key_digit_cases:
  "is_key_digit d \<Longrightarrow> \<exists>c. d = [c] \<and> c \<in> set ''0123456789''"
  unfolding is_key_digit_def
  by (auto split: list.splits dest: digit_cases)

lemma error_state:
  "run initialState [DIGIT ''5'', OP Divide, DIGIT ''0'', EQUALS] =
     \<lparr>display = ''Error'', acc = None, op = None, entering = False, justEvaluated = True\<rparr>"
  by code_simp

lemma toNumber_Error: "toNumber ''Error'' = Num 0"
  by code_simp

lemma formatNumber_NaN: "formatNumber NaN = ''Error''"
  by (simp add: formatNumber_def is_finite_def)

lemma applyOp_NaN: "applyOp NaN b new_op = NaN"
  by (cases new_op) (simp_all add: fsub_def fmul_def fdiv_def)

lemma after_error_value:
  "display (run initialState
      [DIGIT ''5'', OP Divide, DIGIT ''0'', EQUALS, OP new_op, DIGIT d, EQUALS])
   = formatNumber (applyOp (Num 0) (toNumber d) new_op)"
proof -
  have "run initialState [DIGIT ''5'', OP Divide, DIGIT ''0'', EQUALS, OP new_op, DIGIT d, EQUALS]
      = reducer (reducer (reducer
          (run initialState [DIGIT ''5'', OP Divide, DIGIT ''0'', EQUALS])
          (OP new_op)) (DIGIT d)) EQUALS"
    by (simp add: run_def)
  then show ?thesis
    by (simp add: error_state toNumber_Error Let_def)
qed

lemma after_error_equals:
  assumes "is_key_digit d"
  shows "(formatNumber (applyOp (Num 0) (toNumber d) new_op) = ''Error'')
         = (new_op = Divide \<and> d = ''0'')"
proof -
  from key_digit_cases [OF assms] obtain c where "d = [c]" and "c \<in> set ''0123456789''"
    by blast
  then show ?thesis
    by (cases new_op; simp del: applyOp.simps; elim disjE; hypsubst; code_simp)
qed

lemma after_error_operator:
  "display (run initialState
     [DIGIT ''5'', OP Divide, DIGIT ''0'', OP new_op, DIGIT d, EQUALS]) = ''Error''"
proof -
  have s: "run initialState [DIGIT ''5'', OP Divide, DIGIT ''0''] =
     \<lparr>display = ''0'', acc = Some (Num 5), op = Some Divide, entering = True,
      justEvaluated = False\<rparr>"
    by code_simp
  have z: "applyOp (Num 5) (toNumber ''0'') Divide = NaN"
    by code_simp
  have "run initialState [DIGIT ''5'', OP Divide, DIGIT ''0'', OP new_op, DIGIT d, EQUALS]
      = reducer (reducer (reducer
          (run initialState [DIGIT ''5'', OP Divide, DIGIT ''0''])
          (OP new_op)) (DIGIT d)) EQUALS"
    by (simp add: run_def)
  then show ?thesis
    by (simp add: s z Let_def applyOp_NaN formatNumber_NaN del: applyOp.simps)
qed

text \<open>
  C1, the claim as stated fails: after 5, /, 0, = has put \<open>Error\<close> on the display, the
  keys +, 3, = show 3. The display \<open>Error\<close> is read as the operand 0.
\<close>

theorem error_not_propagated_counterexample:
  "display (run initialState
      [DIGIT ''5'', OP Divide, DIGIT ''0'', EQUALS]) = ''Error''
   \<and> display (run initialState
      [DIGIT ''5'', OP Divide, DIGIT ''0'', EQUALS, OP Plus, DIGIT ''3'', EQUALS]) = ''3''"
  by code_simp

text \<open>
  C1, amended. After a division by zero has put \<open>Error\<close> on the display, Clear resets
  the state to the initial one. When an operator and a digit follow the Equals instead,
  the display \<open>Error\<close> is read as the operand 0: the keys 5, /, 0, =, op, d, = show the
  formatted value of \<open>0 op d\<close>, which is \<open>Error\<close> only for a new division by zero. The
  not-a-number result does propagate when the operator follows the zero directly: it
  becomes the accumulator, and 5, /, 0, op, d, = shows \<open>Error\<close> for every operator and
  digit.
\<close>

theorem error_then_chain:
  "is_key_digit d \<Longrightarrow>
     reducer (run initialState [DIGIT ''5'', OP Divide, DIGIT ''0'', EQUALS]) CLEAR
       = initialState
     \<and> display (run initialState
          [DIGIT ''5'', OP Divide, DIGIT ''0'', EQUALS, OP new_op, DIGIT d, EQUALS])
        = formatNumber (applyOp (Num 0) (toNumber d) new_op)
     \<and> (display (run initialState
          [DIGIT ''5'', OP Divide, DIGIT ''0'', EQUALS, OP new_op, DIGIT d, EQUALS]) = ''Error'')
        = (new_op = Divide \<and> d = ''0'')
     \<and> display (run initialState
          [DIGIT ''5'', OP Divide, DIGIT ''0'', OP new_op, DIGIT d, EQUALS]) = ''Error''"
  using after_error_equals [of d new_op] after_error_operator [of new_op d]
    after_error_value [of new_op d]
  by simp

theorem error_then_chain_witness:
  "display (run initialState
      [DIGIT ''5'', OP Divide, DIGIT ''0'', EQUALS, OP Times, DIGIT ''7'', EQUALS]) = ''0''
   \<and> display (run initialState
      [DIGIT ''5'', OP Divide, DIGIT ''0'', OP Times, DIGIT ''7'', EQUALS]) = ''Error''"
proof -
  have k: "is_key_digit ''7''"
    by code_simp
  have v: "formatNumber (fmul (Num 0) (toNumber ''7'')) = ''0''"
    by code_simp
  from error_then_chain [OF k, of Times] show ?thesis
    by (simp add: v)
qed

section \<open>Validation and normalisation of a VIN\<close>

text \<open>
  C8. \<open>validateVin\<close> returns no error for the empty string; otherwise the length error
  exactly when the length is not 17; otherwise the forbidden-character error exactly when
  the string contains I, O or Q; otherwise no error. The result is a returned value.
\<close>

theorem validate_cases:
  "(v = [] \<longrightarrow> validateVin v = None)
   \<and> (v \<noteq> [] \<and> length v \<noteq> 17 \<longrightarrow>
        validateVin v = Some ''VIN must be exactly 17 characters.'')
   \<and> (length v = 17 \<and> has_IOQ v \<longrightarrow> validateVin v = Some ''VIN cannot contain I, O, or Q.'')
   \<and> (length v = 17 \<and> \<not> has_IOQ v \<longrightarrow> validateVin v = None)
   \<and> has_IOQ v = (CHR ''I'' \<in> set v \<or> CHR ''O'' \<in> set v \<or> CHR ''Q'' \<in> set v)"
  by (auto simp: validateVin_def has_IOQ_def list_ex_iff)

theorem validate_cases_witness:
  "validateVin ''1HGCM82633A00435I'' = Some ''VIN cannot contain I, O, or Q.''
   \<and> has_IOQ ''1HGCM82633A00435I''"
proof -
  have "length ''1HGCM82633A00435I'' = 17" "CHR ''I'' \<in> set ''1HGCM82633A00435I''"
    by simp_all
  with validate_cases [of "''1HGCM82633A00435I''"] show ?thesis
    by simp
qed

lemma alnum_not_space: "is_alnum c \<Longrightarrow> \<not> is_space c"
  by (auto simp: is_alnum_def is_space_def is_upper_def is_digit_def)

lemma upper_char_alnum: "is_alnum c \<Longrightarrow> upper_char c = [c]"
  by (auto simp: is_alnum_def upper_char_def is_upper_def is_digit_def is_lower_def)

lemma toUpperCase_alnum: "list_all is_alnum s \<Longrightarrow> toUpperCase s = s"
  by (induction s) (simp_all add: toUpperCase_def upper_char_alnum)

lemma dropWhile_space_alnum: "list_all is_alnum s \<Longrightarrow> dropWhile is_space s = s"
  by (cases s) (simp_all add: alnum_not_space)

lemma trim_alnum:
  assumes "list_all is_alnum s"
  shows "trim s = s"
proof -
  from assms have "list_all is_alnum (rev s)"
    by (simp add: list_all_iff)
  with assms show ?thesis
    by (simp add: trim_def dropWhile_space_alnum)
qed

lemma normalizeVin_alnum: "list_all is_alnum (normalizeVin x)"
  by (simp add: normalizeVin_def list_all_iff)

lemma filter_alnum: "list_all is_alnum s \<Longrightarrow> filter is_alnum s = s"
  by (simp add: list_all_iff)

text \<open>
  C9. \<open>normalizeVin\<close> trims, upper-cases and keeps only the code units in \<open>[A-Z0-9]\<close>,
  so its result consists of those only, and it is idempotent. The example of the
  specification normalises to \<open>1HGCM82633A004352\<close>, which \<open>validateVin\<close> accepts.
\<close>

theorem normalize_idempotent:
  "normalizeVin (normalizeVin x) = normalizeVin x
   \<and> list_all (\<lambda>c. is_upper c \<or> is_digit c) (normalizeVin x)
   \<and> normalizeVin x = filter (\<lambda>c. is_upper c \<or> is_digit c) (toUpperCase (trim x))
   \<and> normalizeVin '' 1hgcm82633a004352 '' = ''1HGCM82633A004352''
   \<and> validateVin (normalizeVin '' 1hgcm82633a004352 '') = None"
proof -
  have a: "list_all is_alnum (normalizeVin x)"
    by (rule normalizeVin_alnum)
  have "normalizeVin (normalizeVin x) = normalizeVin x"
    unfolding normalizeVin_def [of "normalizeVin x"]
    by (simp add: trim_alnum [OF a] toUpperCase_alnum [OF a] filter_alnum [OF a])
  moreover have "normalizeVin '' 1hgcm82633a004352 '' = ''1HGCM82633A004352''"
    by code_simp
  moreover have "validateVin (normalizeVin '' 1hgcm82633a004352 '') = None"
    by code_simp
  moreover have
    "normalizeVin x = filter (\<lambda>c. is_upper c \<or> is_digit c) (toUpperCase (trim x))"
    by (simp add: normalizeVin_def is_alnum_def [abs_def])
  ultimately show ?thesis
    using a by (simp add: is_alnum_def [abs_def])
qed

theorem normalize_idempotent_witness:
  "normalizeVin (normalizeVin ''  wba-3a5c5 x '') = ''WBA3A5C5X''"
proof -
  have n: "normalizeVin ''  wba-3a5c5 x '' = ''WBA3A5C5X''"
    by code_simp
  from normalize_idempotent [of "''  wba-3a5c5 x ''", THEN conjunct1] show ?thesis
    unfolding n .
qed

section \<open>Extraction of a VIN from free text\<close>


















section \<open>Literals, digit by digit\<close>

lemma not_digit_chars [simp]:
  "\<not> is_digit CHR ''.''" "\<not> is_digit CHR ''-''" "\<not> is_digit CHR ''+''" "\<not> is_digit CHR ''e''"
  "is_digit CHR ''0''"
  by (simp_all add: is_digit_def code_def)

lemma digit_char_is_digit: "k \<le> 9 \<Longrightarrow> is_digit (digit_char k)"
  by (simp add: is_digit_def digit_char_def code_def)

lemma int_digits_shape: "int_digits n \<noteq> [] \<and> list_all is_digit (int_digits n)"
proof (induction n rule: int_digits.induct)
  case (1 n)
  show ?case
  proof (cases "n < 10")
    case True
    then have "nat n \<le> 9" by simp
    with True show ?thesis
      by (subst (1 2) int_digits.simps) (simp add: digit_char_is_digit)
  next
    case False
    then have "nat (n mod 10) \<le> 9" by simp
    with False 1 show ?thesis
      by (subst (1 2) int_digits.simps) (simp add: digit_char_is_digit)
  qed
qed

lemma unsigned_plain_digits:
  assumes "ip \<noteq> []" "list_all is_digit ip"
  shows "unsigned_plain ip"
proof -
  from assms(2) have t: "takeWhile is_digit ip = ip" and d: "dropWhile is_digit ip = []"
    by (simp_all add: list_all_iff)
  show ?thesis
    unfolding unsigned_plain_def t d using assms(1) by simp
qed

lemma unsigned_plain_point:
  assumes "ip \<noteq> []" "list_all is_digit ip" "list_all is_digit fp"
  shows "unsigned_plain (ip @ CHR ''.'' # fp)"
proof -
  from assms(2) have t: "takeWhile is_digit (ip @ CHR ''.'' # fp) = ip"
    and d: "dropWhile is_digit (ip @ CHR ''.'' # fp) = CHR ''.'' # fp"
    by (simp_all add: list_all_iff takeWhile_tail dropWhile_append3)
  show ?thesis
    unfolding unsigned_plain_def t d using assms(1, 3) by simp
qed

lemma unsigned_plain_cases:
  assumes "unsigned_plain u"
  shows "(u \<noteq> [] \<and> list_all is_digit u)
     \<or> (\<exists>ip fp. u = ip @ CHR ''.'' # fp \<and> ip \<noteq> [] \<and> list_all is_digit ip \<and> list_all is_digit fp)"
proof (cases "dropWhile is_digit u")
  case Nil
  then have "list_all is_digit u"
    by (simp add: list_all_iff)
  moreover from assms have "u \<noteq> []"
    by (auto simp: unsigned_plain_def)
  ultimately show ?thesis by simp
next
  case (Cons c fp)
  with assms have "c = CHR ''.''" "list_all is_digit fp" "takeWhile is_digit u \<noteq> []"
    by (simp_all add: unsigned_plain_def)
  moreover have "u = takeWhile is_digit u @ dropWhile is_digit u"
    by simp
  moreover have "list_all is_digit (takeWhile is_digit u)"
    by (simp add: list_all_iff) (meson set_takeWhileD)
  ultimately show ?thesis
    using Cons by metis
qed

lemma unsigned_plain_snoc_digit:
  assumes "unsigned_plain u" "is_digit c"
  shows "unsigned_plain (u @ [c])"
  using unsigned_plain_cases [OF assms(1)]
proof (elim disjE exE conjE)
  assume "u \<noteq> []" "list_all is_digit u"
  with assms(2) show ?thesis
    by (intro unsigned_plain_digits) simp_all
next
  fix ip fp
  assume "u = ip @ CHR ''.'' # fp" "ip \<noteq> []" "list_all is_digit ip" "list_all is_digit fp"
  with assms(2) unsigned_plain_point [of ip "fp @ [c]"] show ?thesis
    by simp
qed

lemma unsigned_plain_snoc_point:
  assumes "unsigned_plain u" "CHR ''.'' \<notin> set u"
  shows "unsigned_plain (u @ ''.'')"
  using unsigned_plain_cases [OF assms(1)] assms(2) unsigned_plain_point [of u "[]"]
  by auto

lemma plain_literal_snoc_digit:
  assumes "plain_literal s" "is_digit c"
  shows "plain_literal (s @ [c])"
proof (cases s)
  case Nil
  with assms show ?thesis by (simp add: plain_literal_def)
next
  case (Cons a u)
  with assms unsigned_plain_snoc_digit [of u c] unsigned_plain_snoc_digit [of s c]
  show ?thesis
    by (auto simp: plain_literal_def)
qed

lemma plain_literal_snoc_point:
  assumes "plain_literal s" "CHR ''.'' \<notin> set s"
  shows "plain_literal (s @ ''.'')"
proof (cases s)
  case Nil
  with assms show ?thesis by (simp add: plain_literal_def)
next
  case (Cons a u)
  with assms unsigned_plain_snoc_point [of u] unsigned_plain_snoc_point [of s]
  show ?thesis
    by (auto simp: plain_literal_def)
qed

lemma plain_literal_key_digit: "is_key_digit d \<Longrightarrow> plain_literal d"
  by (auto simp: is_key_digit_def plain_literal_def unsigned_plain_def split: list.splits)

lemma sci_text_snoc: "sci_text s \<Longrightarrow> sci_char c \<Longrightarrow> sci_text (s @ [c])"
  by (simp add: sci_text_def)

lemma plain_unsigned: "unsigned_plain u \<Longrightarrow> plain_literal u"
  by (cases u) (auto simp: plain_literal_def unsigned_plain_def)

lemma plain_minus: "unsigned_plain u \<Longrightarrow> plain_literal (CHR ''-'' # u)"
  by (simp add: plain_literal_def)

lemma unsigned_plain_Cons:
  "is_digit c \<Longrightarrow> unsigned_plain u \<Longrightarrow> unsigned_plain (c # u)"
  by (simp add: unsigned_plain_def)

lemma plain_literal_zero: "plain_literal ''0''" "plain_literal ''0.''"
  by (simp_all add: plain_literal_def unsigned_plain_def)

section \<open>The shape of a formatted number\<close>

text \<open>
  Whatever \<open>String(n)\<close> and \<open>toFixed\<close> write for a finite number is digits only, digits
  around one point, or an exponent form; \<open>formatNumber\<close> turns the first two into plain
  literals and returns the third as it is.
\<close>

lemma strip_tail_subset: "set (strip_tail s) \<subseteq> set s"
  by (induction s) auto

lemma strip_tail_digits: "list_all is_digit s \<Longrightarrow> list_all is_digit (strip_tail s)"
  using strip_tail_subset [of s] by (auto simp: list_all_iff)

lemma no_match_before_point:
  "is_digit c \<Longrightarrow> \<not> matches_tail (c # ip @ CHR ''.'' # fp)"
  by (auto simp: matches_tail_def)

lemma strip_tail_point:
  assumes "ip \<noteq> []" "list_all is_digit ip" "list_all is_digit fp"
  shows "unsigned_plain (strip_tail (ip @ CHR ''.'' # fp))"
  using assms
proof (induction ip)
  case Nil
  then show ?case by simp
next
  case (Cons c ip)
  then have c: "is_digit c" by simp
  show ?case
  proof (cases "ip = []")
    case True
    have "list_all is_digit (strip_tail fp)"
      using Cons.prems(3) by (rule strip_tail_digits)
    then have "unsigned_plain ([c] @ CHR ''.'' # strip_tail fp)"
      using c by (intro unsigned_plain_point) simp_all
    moreover have "unsigned_plain [c]"
      using c by (intro unsigned_plain_digits) simp_all
    ultimately show ?thesis
      using True no_match_before_point [OF c, of "[]" fp] by simp
  next
    case False
    with Cons have "unsigned_plain (strip_tail (ip @ CHR ''.'' # fp))"
      by simp
    then show ?thesis
      using no_match_before_point [OF c, of ip fp] c by (simp add: unsigned_plain_Cons)
  qed
qed

lemma strip_tail_minus: "strip_tail (CHR ''-'' # s) = CHR ''-'' # strip_tail s"
  by (simp add: matches_tail_def)

lemma zeros_digits: "list_all is_digit (replicate n CHR ''0'')"
  by (induction n) simp_all

lemma digits_sci: "list_all is_digit s \<Longrightarrow> list_all sci_char s"
  by (simp add: list_all_iff sci_char_def)

lemma layout_shape:
  assumes "ds \<noteq> []" "list_all is_digit ds"
  shows "digits_only (layout ds n) \<or> pointed (layout ds n) \<or> exponent_form (layout ds n)"
proof -
  let ?k = "int (length ds)"
  consider (a) "?k \<le> n \<and> n \<le> 21"
    | (b) "\<not> (?k \<le> n \<and> n \<le> 21)" "0 < n \<and> n \<le> 21"
    | (c) "\<not> (?k \<le> n \<and> n \<le> 21)" "\<not> (0 < n \<and> n \<le> 21)" "- 6 < n \<and> n \<le> 0"
    | (d) "\<not> (?k \<le> n \<and> n \<le> 21)" "\<not> (0 < n \<and> n \<le> 21)" "\<not> (- 6 < n \<and> n \<le> 0)"
    by blast
  then show ?thesis
  proof cases
    case a
    then have "layout ds n = ds @ replicate (nat (n - ?k)) CHR ''0''"
      by (simp only: layout_def Let_def if_True simp_thms)
    with assms have "digits_only (layout ds n)"
      by (simp add: digits_only_def zeros_digits)
    then show ?thesis by simp
  next
    case b
    then have l: "layout ds n = take (nat n) ds @ CHR ''.'' # drop (nat n) ds"
      by (simp only: layout_def Let_def if_True if_False append_Cons append_Nil simp_thms)
    from b assms(1) have "take (nat n) ds \<noteq> []"
      by (cases ds) simp_all
    moreover from assms(2) have "list_all is_digit (take (nat n) ds)"
      "list_all is_digit (drop (nat n) ds)"
      by (auto simp: list_all_iff dest: in_set_takeD in_set_dropD)
    ultimately have "pointed (layout ds n)"
      unfolding pointed_def l by blast
    then show ?thesis by simp
  next
    case c
    then have l: "layout ds n = ''0'' @ CHR ''.'' # (replicate (nat (- n)) CHR ''0'' @ ds)"
      by (simp only: layout_def Let_def if_True if_False append_Cons append_Nil simp_thms)
    from assms(2) have "list_all is_digit (replicate (nat (- n)) CHR ''0'' @ ds)"
      by (simp add: zeros_digits)
    then have "pointed (layout ds n)"
      unfolding pointed_def l by (intro exI conjI) (rule refl, simp_all)
    then show ?thesis by simp
  next
    case d
    let ?ex = "(if n - 1 < 0 then ''-'' else ''+'') @ int_digits \<bar>n - 1\<bar>"
    from d have l: "layout ds n =
        (if ?k = 1 then ds @ ''e'' @ ?ex else take 1 ds @ ''.'' @ drop 1 ds @ ''e'' @ ?ex)"
      by (simp only: layout_def Let_def if_False simp_thms)
    have "list_all sci_char ?ex"
      using int_digits_shape [of "\<bar>n - 1\<bar>"]
      by (simp add: digits_sci) (simp add: sci_char_def)
    moreover from assms(2) have "list_all sci_char ds" "list_all sci_char (take 1 ds)"
      "list_all sci_char (drop 1 ds)"
      by (auto simp: list_all_iff sci_char_def dest: in_set_takeD in_set_dropD)
    ultimately have "exponent_form (layout ds n)"
      unfolding exponent_form_def l by (simp add: sci_char_def)
    then show ?thesis by simp
  qed
qed

lemma decimal_repr_digits:
  "decimal_repr x = (ds, n) \<Longrightarrow> ds \<noteq> [] \<and> list_all is_digit ds"
  using int_digits_shape
  by (auto simp: decimal_repr_def Let_def split: prod.splits if_splits)

lemma positive_to_string_shape:
  "digits_only (positive_to_string x) \<or> pointed (positive_to_string x)
   \<or> exponent_form (positive_to_string x)"
proof -
  obtain ds n where r: "decimal_repr x = (ds, n)"
    by (cases "decimal_repr x")
  from decimal_repr_digits [OF r] layout_shape [of ds n] show ?thesis
    by (simp add: positive_to_string_def r)
qed

lemma fixed_digits_pointed: "0 < f \<Longrightarrow> pointed (fixed_digits f x)"
proof -
  assume f: "0 < f"
  let ?m = "int_digits \<lfloor>x * 10 ^ f + 1 / 2\<rfloor>"
  let ?m' = "replicate (f + 1 - length ?m) CHR ''0'' @ ?m"
  have len: "f + 1 \<le> length ?m'"
    by simp
  have dig: "list_all is_digit ?m'"
    using int_digits_shape [of "\<lfloor>x * 10 ^ f + 1 / 2\<rfloor>"] by (simp add: zeros_digits)
  have l: "fixed_digits f x = take (length ?m' - f) ?m' @ CHR ''.'' # drop (length ?m' - f) ?m'"
    using f by (simp add: fixed_digits_def Let_def)
  from len have "0 < length ?m' - f" "?m' \<noteq> []"
    by auto
  then have "take (length ?m' - f) ?m' \<noteq> []"
    by (simp only: take_eq_Nil) simp
  moreover from dig have "list_all is_digit (take (length ?m' - f) ?m')"
    "list_all is_digit (drop (length ?m' - f) ?m')"
    by (auto simp: list_all_iff dest: in_set_takeD in_set_dropD)
  ultimately show ?thesis
    unfolding pointed_def l by blast
qed

lemma strip_pointed: "pointed s \<Longrightarrow> unsigned_plain (strip_tail s)"
  by (auto simp: pointed_def strip_tail_point)

lemma digits_only_no_marks:
  "digits_only s \<Longrightarrow> CHR ''e'' \<notin> set s \<and> CHR ''.'' \<notin> set s"
  by (auto simp: digits_only_def list_all_iff)

lemma pointed_has_point: "pointed s \<Longrightarrow> CHR ''.'' \<in> set s"
  by (auto simp: pointed_def)

lemma digits_no_e: "list_all is_digit s \<Longrightarrow> CHR ''e'' \<notin> set s"
  by (induction s) auto

lemma pointed_no_e: "pointed s \<Longrightarrow> CHR ''e'' \<notin> set s"
  by (auto simp: pointed_def dest: digits_no_e)

lemma exponent_form_sci: "exponent_form s \<Longrightarrow> sci_text s \<and> sci_text (CHR ''-'' # s)"
  by (simp add: exponent_form_def sci_text_def sci_char_def)

lemma toFixed_shape:
  assumes "q \<noteq> 0" and "a = \<bar>q\<bar>" and "pointed (positive_to_string a)"
  shows "plain_literal (strip_tail (toFixed (Num q) 10))"
proof -
  have f: "pointed (fixed_digits 10 a)"
    by (rule fixed_digits_pointed) simp
  show ?thesis
  proof (cases "q < 0")
    case True
    with assms(2) have "toFixed (Num q) 10 = CHR ''-'' # positive_to_string a
        \<or> toFixed (Num q) 10 = CHR ''-'' # fixed_digits 10 a"
      by (simp add: toFixed_def)
    with assms(3) f show ?thesis
      by (auto simp: strip_tail_minus strip_pointed plain_minus simp del: strip_tail.simps)
  next
    case False
    with assms(1, 2) have "toFixed (Num q) 10 = positive_to_string a
        \<or> toFixed (Num q) 10 = fixed_digits 10 a"
      by (simp add: toFixed_def)
    with assms(3) f show ?thesis
      by (auto simp: strip_pointed plain_unsigned simp del: strip_tail.simps)
  qed
qed

lemma formatNumber_Num_shape:
  "plain_literal (formatNumber (Num q)) \<or> sci_text (formatNumber (Num q))"
proof (cases "q = 0")
  case True
  have "plain_literal ''0''"
    by (simp add: plain_literal_def unsigned_plain_def)
  with True show ?thesis
    by (simp add: formatNumber_def is_finite_def)
next
  case False
  define a where "a = \<bar>q\<bar>"
  let ?p = "positive_to_string a"
  let ?s = "number_to_string (Num q)"
  from False have s: "?s = (if q < 0 then CHR ''-'' # ?p else ?p)"
    by (simp add: a_def)
  have fin: "is_finite (Num q)"
    by (simp add: is_finite_def)
  have fmt: "formatNumber (Num q) =
      (if CHR ''e'' \<in> set ?s then ?s
       else if CHR ''.'' \<in> set ?s then strip_tail (toFixed (Num q) 10) else ?s)"
    by (simp add: formatNumber_def fin Let_def del: number_to_string.simps)
  from positive_to_string_shape [of a]
  consider (d) "digits_only ?p" | (p) "pointed ?p" | (e) "exponent_form ?p"
    by blast
  then show ?thesis
  proof cases
    case d
    from digits_only_no_marks [OF d] have "CHR ''e'' \<notin> set ?s" "CHR ''.'' \<notin> set ?s"
      unfolding s by simp_all
    then have "formatNumber (Num q) = ?s"
      unfolding fmt by simp
    moreover from d have "unsigned_plain ?p"
      by (simp add: digits_only_def unsigned_plain_digits)
    ultimately show ?thesis
      unfolding s by (simp add: plain_minus plain_unsigned)
  next
    case p
    from pointed_no_e [OF p] pointed_has_point [OF p]
    have "CHR ''e'' \<notin> set ?s" "CHR ''.'' \<in> set ?s"
      unfolding s by simp_all
    then have "formatNumber (Num q) = strip_tail (toFixed (Num q) 10)"
      unfolding fmt by simp
    with toFixed_shape [OF False a_def p] show ?thesis
      by simp
  next
    case e
    then have "CHR ''e'' \<in> set ?s"
      unfolding s by (simp add: exponent_form_def)
    then have "formatNumber (Num q) = ?s"
      unfolding fmt by simp
    with exponent_form_sci [OF e] show ?thesis
      unfolding s by simp
  qed
qed

lemma formatNumber_shape:
  "formatNumber n = ''Error'' \<or> plain_literal (formatNumber n) \<or> sci_text (formatNumber n)"
proof (cases "is_finite n")
  case False
  then show ?thesis by (simp add: formatNumber_def)
next
  case True
  then consider "n = NegZero" | q where "n = Num q"
    by (cases n) (simp_all add: is_finite_def)
  then show ?thesis
  proof cases
    case 1
    have "formatNumber NegZero = formatNumber (Num 0)"
      by (simp add: formatNumber_def is_finite_def)
    with 1 formatNumber_Num_shape [of 0] show ?thesis by simp
  next
    case 2
    with formatNumber_Num_shape [of q] show ?thesis by simp
  qed
qed

lemma formatNumber_finite_shape:
  "is_finite n \<Longrightarrow> plain_literal (formatNumber n) \<or> sci_text (formatNumber n)"
proof -
  assume "is_finite n"
  then consider "n = NegZero" | q where "n = Num q"
    by (cases n) (simp_all add: is_finite_def)
  then show ?thesis
  proof cases
    case 1
    have "formatNumber NegZero = formatNumber (Num 0)"
      by (simp add: formatNumber_def is_finite_def)
    with 1 formatNumber_Num_shape [of 0] show ?thesis by simp
  next
    case 2
    with formatNumber_Num_shape [of q] show ?thesis by simp
  qed
qed

section \<open>Rounding stays in range\<close>

text \<open>
  Negating the number read from the display, and dividing it by 100, gives a finite number:
  the toggle and the percent key never produce \<open>Error\<close>.
\<close>

lemma pow2_nonneg: "0 \<le> e \<Longrightarrow> pow2 e = of_int (2 ^ nat e)"
  by (simp add: pow2_def)

lemma pow2_powi: "pow2 e = 2 powi e"
proof (cases "0 \<le> e")
  case True
  then show ?thesis
    by (simp add: pow2_def power_int_def)
next
  case False
  then show ?thesis
    by (simp add: pow2_def power_int_def inverse_eq_divide power_one_over)
qed

lemma bitlen_pow2_bounds:
  assumes "0 < n"
  shows "pow2 (bitlen n - 1) \<le> of_int n \<and> of_int n < pow2 (bitlen n)"
proof -
  from bitlen_bounds [OF assms]
  have b: "2 ^ nat (bitlen n - 1) \<le> n" "n < 2 ^ nat (bitlen n)"
    by simp_all
  have "1 \<le> bitlen n"
  proof (rule ccontr)
    assume "\<not> 1 \<le> bitlen n"
    with bitlen_nonneg [of n] have "bitlen n = 0" by simp
    with b(2) assms show False by simp
  qed
  then have "pow2 (bitlen n - 1) = of_int (2 ^ nat (bitlen n - 1))"
    "pow2 (bitlen n) = of_int (2 ^ nat (bitlen n))"
    by (simp_all add: pow2_nonneg)
  with b show ?thesis
    by (simp only: of_int_le_iff of_int_less_iff)
qed

lemma pow2_pos: "0 < pow2 e"
  by (simp add: pow2_powi)

lemma pow2_mono: "x \<le> y \<Longrightarrow> pow2 x \<le> pow2 y"
  by (simp add: pow2_powi power_int_increasing)

lemma pow2_less_cancel: "pow2 x < pow2 y \<Longrightarrow> x < y"
proof (rule ccontr)
  assume "pow2 x < pow2 y" and "\<not> x < y"
  then have "pow2 y \<le> pow2 x" by (simp add: pow2_mono)
  with \<open>pow2 x < pow2 y\<close> show False by simp
qed

lemma pow2_add: "pow2 (x + y) = pow2 x * pow2 y"
  by (simp add: pow2_powi power_int_add)

lemma pow2_diff: "pow2 (x - y) = pow2 x / pow2 y"
  by (simp add: pow2_powi power_int_diff)

lemma floor_log2_bounds:
  assumes "0 < a"
  shows "pow2 (floor_log2 a) \<le> a \<and> a < pow2 (floor_log2 a + 1)"
proof -
  obtain n d where q: "quotient_of a = (n, d)"
    by (cases "quotient_of a")
  have d: "0 < d"
    using q by (rule quotient_of_denom_pos)
  have a: "a = of_int n / of_int d"
    using q by (rule quotient_of_div)
  with assms d have n: "0 < n"
    by (simp add: zero_less_divide_iff)
  let ?t = "bitlen n - bitlen d"
  from bitlen_pow2_bounds [OF n]
  have nb: "pow2 (bitlen n - 1) \<le> of_int n" "(of_int n :: rat) < pow2 (bitlen n)"
    by simp_all
  from bitlen_pow2_bounds [OF d]
  have db: "pow2 (bitlen d - 1) \<le> of_int d" "(of_int d :: rat) < pow2 (bitlen d)"
    by simp_all
  have up: "a < pow2 (?t + 1)"
  proof -
    have "a < pow2 (bitlen n) / pow2 (bitlen d - 1)"
      unfolding a using n d nb db pow2_pos [of "bitlen d - 1"]
      by (intro frac_less) simp_all
    also have "\<dots> = pow2 (?t + 1)"
      by (simp add: pow2_diff [symmetric] algebra_simps)
    finally show ?thesis .
  qed
  have lo: "pow2 (?t - 1) \<le> a"
  proof -
    have "pow2 (bitlen n - 1) / pow2 (bitlen d) \<le> a"
      unfolding a using n d nb db pow2_pos [of "bitlen n - 1"]
      by (intro frac_le) simp_all
    moreover have "pow2 (bitlen n - 1) / pow2 (bitlen d) = pow2 (?t - 1)"
      by (simp add: pow2_diff [symmetric] algebra_simps)
    ultimately show ?thesis by simp
  qed
  show ?thesis
  proof (cases "pow2 ?t \<le> a")
    case True
    with up show ?thesis
      by (simp add: floor_log2_def q)
  next
    case False
    with lo show ?thesis
      by (simp add: floor_log2_def q)
  qed
qed

lemma round_half_even_bounds:
  "\<lfloor>m\<rfloor> \<le> round_half_even m \<and> round_half_even m \<le> \<lfloor>m\<rfloor> + 1"
  by (simp add: round_half_even_def Let_def)

lemma round_half_even_le:
  assumes "m < of_int k"
  shows "round_half_even m \<le> k"
proof -
  from assms have "\<lfloor>m\<rfloor> < k"
    by (simp add: floor_less_iff)
  with round_half_even_bounds [of m] show ?thesis
    by simp
qed

lemma round_half_even_nonneg: "0 \<le> m \<Longrightarrow> 0 \<le> round_half_even m"
  using round_half_even_bounds [of m] by (simp add: order_trans [of 0 "\<lfloor>m\<rfloor>"])

lemma significand_bound:
  assumes "0 < a" and "floor_log2 a \<le> e"
  shows "round_half_even (a / pow2 (e - 52)) \<le> 2 ^ 53"
proof -
  from floor_log2_bounds [OF assms(1)] have "a < pow2 (floor_log2 a + 1)"
    by simp
  also from assms(2) have "\<dots> \<le> pow2 (e + 1)"
    by (simp add: pow2_mono)
  finally have "a / pow2 (e - 52) < pow2 (e + 1) / pow2 (e - 52)"
    using pow2_pos [of "e - 52"] by (simp add: divide_strict_right_mono)
  also have "\<dots> = pow2 53"
    by (simp add: pow2_diff [symmetric])
  also have "\<dots> = of_int (2 ^ 53)"
    by (simp add: pow2_nonneg)
  finally show ?thesis
    by (rule round_half_even_le)
qed

lemma round_double_bounded:
  assumes "is_finite (round_double q)"
  shows "bounded (round_double q)"
proof (cases "q = 0")
  case True
  then show ?thesis
    by (simp add: round_double_def bounded_def pow2_pos)
next
  case False
  define a where "a = \<bar>q\<bar>"
  define e where "e = max (floor_log2 a) (- 1022)"
  define m where "m = round_half_even (a / pow2 (e - 52))"
  have r: "round_double q =
      (if 1023 < e \<or> (e = 1023 \<and> 2 ^ 53 \<le> m) then (if q < 0 then NegInf else PosInf)
       else if m = 0 then (if q < 0 then NegZero else Num 0)
       else Num (if q < 0 then - (of_int m * pow2 (e - 52)) else of_int m * pow2 (e - 52)))"
    unfolding round_double_def Let_def a_def e_def m_def by (simp only: False if_False)
  from False have a: "0 < a"
    by (simp add: a_def)
  have m53: "m \<le> 2 ^ 53"
    unfolding m_def using a by (rule significand_bound) (simp add: e_def)
  have m0: "0 \<le> m"
    unfolding m_def using a pow2_pos [of "e - 52"] by (intro round_half_even_nonneg) simp
  show ?thesis
  proof (cases "1023 < e \<or> (e = 1023 \<and> 2 ^ 53 \<le> m)")
    case True
    with assms r show ?thesis
      by (simp add: is_finite_def split: if_splits)
  next
    case False
    have "of_int m * pow2 (e - 52) < pow2 1024"
    proof (cases "e = 1023")
      case True
      with False have "m < 2 ^ 53" by simp
      then have "(of_int m :: rat) < of_int (2 ^ 53)"
        by (simp only: of_int_less_iff)
      then have "of_int m * pow2 (e - 52) < of_int (2 ^ 53) * pow2 (e - 52)"
        using pow2_pos [of "e - 52"] by (simp only: mult_strict_right_mono)
      also have "\<dots> = pow2 53 * pow2 (e - 52)"
        by (simp add: pow2_nonneg)
      also have "\<dots> = pow2 1024"
        unfolding pow2_add [symmetric] True by simp
      finally show ?thesis .
    next
      case e: False
      with False have e1: "e + 1 \<le> 1023" by simp
      from m53 have "(of_int m :: rat) \<le> of_int (2 ^ 53)"
        by (simp only: of_int_le_iff)
      then have "of_int m * pow2 (e - 52) \<le> of_int (2 ^ 53) * pow2 (e - 52)"
        using pow2_pos [of "e - 52"] by (simp only: mult_right_mono less_imp_le)
      also have "\<dots> = pow2 53 * pow2 (e - 52)"
        by (simp add: pow2_nonneg)
      also have "\<dots> = pow2 (e + 1)"
        unfolding pow2_add [symmetric] by (simp add: add.commute)
      also from e1 have "\<dots> \<le> pow2 1023"
        by (rule pow2_mono)
      also have "\<dots> < pow2 1024"
        by (simp add: pow2_powi power_int_strict_increasing)
      finally show ?thesis .
    qed
    moreover have "0 \<le> of_int m * pow2 (e - 52)"
      using m0 pow2_pos [of "e - 52"] by simp
    ultimately show ?thesis
      using False r by (simp add: bounded_def pow2_pos)
  qed
qed

lemma round_double_percent:
  assumes "\<bar>v\<bar> < pow2 1024"
  shows "is_finite (round_double (v / 100))"
proof (cases "v = 0")
  case True
  then show ?thesis
    by (simp add: round_double_def is_finite_def)
next
  case False
  define a where "a = \<bar>v / 100\<bar>"
  from False have a: "0 < a"
    by (simp add: a_def)
  have "a * 64 \<le> a * 100"
    using a by simp
  also have "\<dots> = \<bar>v\<bar>"
    by (simp add: a_def)
  also note assms
  finally have "a * pow2 6 < pow2 1024"
    by (simp add: pow2_nonneg)
  then have "a < pow2 1024 / pow2 6"
    using pow2_pos [of 6] by (simp add: pos_less_divide_eq)
  also have "\<dots> = pow2 1018"
    by (simp add: pow2_diff [symmetric])
  finally have "pow2 (floor_log2 a) < pow2 1018"
    using floor_log2_bounds [OF a] by simp
  then have "floor_log2 a < 1018"
    by (rule pow2_less_cancel)
  then have e: "\<not> (1023 < max (floor_log2 a) (- 1022))"
    "max (floor_log2 a) (- 1022) \<noteq> 1023"
    by simp_all
  from False have "v / 100 \<noteq> 0" by simp
  then show ?thesis
    using e unfolding round_double_def a_def [symmetric] Let_def
    by (simp add: is_finite_def)
qed

lemma string_to_number_cases:
  "string_to_number s \<in> {NaN, PosInf, NegInf, NegZero, Num 0}
   \<or> (\<exists>x. string_to_number s = round_double x)"
  by (auto simp: string_to_number_def parse_radix_def parse_decimal_def signed_inf_def
      signed_zero_def Let_def split: option.splits prod.splits)

lemma toNumber_bounded: "bounded (toNumber s)"
proof -
  from string_to_number_cases [of s]
  consider "string_to_number s \<in> {NaN, PosInf, NegInf, NegZero, Num 0}"
    | x where "string_to_number s = round_double x"
    by blast
  then show ?thesis
  proof cases
    case 1
    then show ?thesis
      by (auto simp: toNumber_def is_finite_def bounded_def pow2_pos)
  next
    case 2
    show ?thesis
    proof (cases "is_finite (round_double x)")
      case True
      with round_double_bounded [OF True] 2 show ?thesis
        by (simp add: toNumber_def)
    next
      case False
      with 2 show ?thesis
        by (simp add: toNumber_def bounded_def pow2_pos)
    qed
  qed
qed

lemma toNumber_finite: "is_finite (toNumber s)"
  by (simp add: toNumber_def Let_def is_finite_def)

lemma fneg_finite: "is_finite n \<Longrightarrow> is_finite (fneg n)"
  by (cases n) (simp_all add: is_finite_def)

lemma percent_finite: "is_finite (fdiv (toNumber s) (Num 100))"
proof -
  from toNumber_bounded [of s]
  consider "toNumber s = NegZero" | v where "toNumber s = Num v" "\<bar>v\<bar> < pow2 1024"
    by (cases "toNumber s") (simp_all add: bounded_def)
  then show ?thesis
  proof cases
    case 1
    then show ?thesis
      by (simp add: fdiv_def is_finite_def is_zero_def is_negative_def signed_zero_def)
  next
    case 2
    show ?thesis
    proof (cases "v = 0")
      case True
      with 2 show ?thesis
        by (simp add: fdiv_def is_finite_def is_zero_def is_negative_def signed_zero_def)
    next
      case False
      have "fdiv (Num v) (Num 100) = round_double (v / 100)"
        using False by (simp add: fdiv_def is_finite_def is_zero_def Let_def)
      with round_double_percent [OF 2(2)] 2(1) show ?thesis
        by simp
    qed
  qed
qed

section \<open>Division by zero\<close>

lemma round_double_not_NaN: "round_double q \<noteq> NaN"
  by (simp add: round_double_def Let_def)

lemma divide_NaN_iff:
  "(applyOp a b Divide = NaN)
     = (is_zero b \<or> a = NaN \<or> b = NaN \<or> (\<not> is_finite a \<and> \<not> is_finite b))"
  by (cases a; cases b)
    (auto simp: fdiv_def Let_def is_zero_def is_finite_def is_negative_def signed_inf_def
      signed_zero_def round_double_not_NaN)

lemma toNumber_not_NaN: "toNumber shown \<noteq> NaN \<and> is_finite (toNumber shown)"
  using toNumber_finite [of shown] by (auto simp: is_finite_def)

lemma divide_display_NaN_iff:
  "(applyOp a (toNumber shown) Divide = NaN) = (is_zero (toNumber shown) \<or> a = NaN)"
  using toNumber_not_NaN [of shown] by (simp only: divide_NaN_iff) simp

lemma Error_not_number: "\<not> plain_literal ''Error''" "\<not> sci_text ''Error''"
  by (simp_all add: plain_literal_def unsigned_plain_def sci_text_def is_digit_def code_def)

lemma formatNumber_Error_iff: "(formatNumber n = ''Error'') = (\<not> is_finite n)"
proof (cases "is_finite n")
  case True
  from formatNumber_finite_shape [OF True] Error_not_number
  have "formatNumber n \<noteq> ''Error''"
    by metis
  with True show ?thesis by simp
next
  case False
  then show ?thesis by (simp add: formatNumber_def)
qed

text \<open>
  C4, the claim as stated fails: division also returns not-a-number when the second
  operand is not zero. The keys 5, /, 0, /, 5 leave not-a-number in the accumulator with
  division pending and 5 on the display, and the division of the two is not-a-number.
\<close>

theorem division_nan_counterexample:
  "acc (run initialState [DIGIT ''5'', OP Divide, DIGIT ''0'', OP Divide, DIGIT ''5''])
     = Some NaN
   \<and> op (run initialState [DIGIT ''5'', OP Divide, DIGIT ''0'', OP Divide, DIGIT ''5''])
     = Some Divide
   \<and> toNumber (display
        (run initialState [DIGIT ''5'', OP Divide, DIGIT ''0'', OP Divide, DIGIT ''5'']))
     = Num 5
   \<and> \<not> is_zero (Num 5)
   \<and> applyOp NaN (Num 5) Divide = NaN"
  by code_simp

text \<open>
  C4, amended. Division returns the not-a-number value when the second operand is zero
  and the quotient \<open>a / b\<close> otherwise. The result is not-a-number exactly when the second
  operand is zero, or an operand is not-a-number already, or both operands are infinite;
  with the second operand read from the display, which is always finite, exactly when it
  is zero or the first operand is not-a-number. A value is formatted as \<open>Error\<close> exactly
  when it is not finite, so 5, /, 0, = shows \<open>Error\<close>. All of it is a returned value: the
  functions are total.
\<close>

theorem division_by_zero:
  "applyOp a b Divide = (if is_zero b then NaN else fdiv a b)
   \<and> (applyOp a b Divide = NaN)
       = (is_zero b \<or> a = NaN \<or> b = NaN \<or> (\<not> is_finite a \<and> \<not> is_finite b))
   \<and> (applyOp a (toNumber shown) Divide = NaN) = (is_zero (toNumber shown) \<or> a = NaN)
   \<and> (x \<noteq> 0 \<and> y \<noteq> 0 \<longrightarrow> applyOp (Num x) (Num y) Divide = round_double (x / y))
   \<and> (formatNumber n = ''Error'') = (\<not> is_finite n)
   \<and> display (run initialState [DIGIT ''5'', OP Divide, DIGIT ''0'', EQUALS]) = ''Error''"
proof -
  have "x \<noteq> 0 \<and> y \<noteq> 0 \<longrightarrow> applyOp (Num x) (Num y) Divide = round_double (x / y)"
    by (simp add: is_zero_def fdiv_def is_finite_def Let_def)
  moreover have
    "display (run initialState [DIGIT ''5'', OP Divide, DIGIT ''0'', EQUALS]) = ''Error''"
    by code_simp
  moreover have "applyOp a b Divide = (if is_zero b then NaN else fdiv a b)"
    by simp
  ultimately show ?thesis
    using divide_NaN_iff [of a b] divide_display_NaN_iff [of a shown]
      formatNumber_Error_iff [of n]
    by (simp only: simp_thms)
qed

theorem division_by_zero_witness:
  "applyOp (Num 5) (Num 0) Divide = NaN
   \<and> applyOp (Num 6) (Num 3) Divide = Num 2
   \<and> formatNumber (applyOp (Num 5) (Num 0) Divide) = ''Error''"
proof -
  have z: "is_zero (Num 0)" "\<not> is_finite NaN"
    by (simp_all add: is_zero_def is_finite_def)
  have r: "round_double (6 / 3) = Num 2"
    by code_simp
  show ?thesis
    using division_by_zero [where a = "Num 5" and b = "Num 0" and x = 6 and y = 3 and n = NaN]
      z r
    by simp
qed

section \<open>The display\<close>

lemma key_digit_char: "is_key_digit d \<Longrightarrow> \<exists>c. d = [c] \<and> is_digit c"
  by (auto simp: is_key_digit_def split: list.splits)

lemma inv_digit:
  assumes "display_inv s" "is_key_digit d"
  shows "display_inv (reducer s (DIGIT d))"
proof -
  from key_digit_char [OF assms(2)] obtain c where d: "d = [c]" and c: "is_digit c"
    by blast
  have pd: "plain_literal d"
    using assms(2) by (rule plain_literal_key_digit)
  have sc: "sci_char c"
    using c by (simp add: sci_char_def)
  show ?thesis
  proof (cases "\<not> entering s \<or> (justEvaluated s \<and> op s = None \<and> acc s = None)")
    case True
    with pd show ?thesis
      by (auto simp: display_inv_def Let_def)
  next
    case False
    then have e: "entering s" by simp
    with assms(1) have "plain_literal (display s) \<or> sci_text (display s)"
      by (simp add: display_inv_def)
    then have "plain_literal (display s @ d) \<or> sci_text (display s @ d)"
      unfolding d using c sc by (auto intro: plain_literal_snoc_digit sci_text_snoc)
    with False pd show ?thesis
      by (auto simp: display_inv_def Let_def)
  qed
qed

lemma inv_dot:
  assumes "display_inv s"
  shows "display_inv (reducer s DOT)"
proof (cases "\<not> entering s \<or> (justEvaluated s \<and> op s = None \<and> acc s = None)")
  case True
  with plain_literal_zero(2) show ?thesis
    by (auto simp: display_inv_def Let_def)
next
  case False
  then have e: "entering s" by simp
  show ?thesis
  proof (cases "CHR ''.'' \<in> set (display s)")
    case True
    with False assms show ?thesis
      by (auto simp: Let_def)
  next
    case nodot: False
    from e assms have "plain_literal (display s) \<or> sci_text (display s)"
      by (simp add: display_inv_def)
    then have "plain_literal (display s @ ''.'') \<or> sci_text (display s @ ''.'')"
      using nodot plain_literal_snoc_point [of "display s"] sci_text_snoc [of "display s" "CHR ''.''"]
      by (auto simp: sci_char_def)
    with False nodot show ?thesis
      by (auto simp: display_inv_def Let_def)
  qed
qed

lemma inv_toggle:
  assumes "display_inv s"
  shows "display_inv (reducer s TOGGLE_SIGN)"
proof (cases "display s = ''0''")
  case True
  with assms show ?thesis by simp
next
  case False
  have "is_finite (fneg (toNumber (display s)))"
    by (intro fneg_finite toNumber_finite)
  from formatNumber_finite_shape [OF this] False show ?thesis
    by (auto simp: display_inv_def Let_def)
qed

lemma inv_percent:
  assumes "display_inv s"
  shows "display_inv (reducer s PERCENT)"
  using formatNumber_finite_shape [OF percent_finite [of "display s"]]
  by (auto simp: display_inv_def Let_def)

lemma inv_keep:
  "display_inv s \<Longrightarrow> display_inv (s\<lparr>acc := a, op := b, entering := False, justEvaluated := j\<rparr>)"
  by (auto simp: display_inv_def)

lemma inv_formatted:
  "display_inv \<lparr>display = formatNumber n, acc = a, op = b, entering = False, justEvaluated = j\<rparr>"
  using formatNumber_shape [of n] by (auto simp: display_inv_def)

lemma inv_op:
  assumes "display_inv s"
  shows "display_inv (reducer s (OP new_op))"
proof (cases "op s")
  case None
  then show ?thesis
    using inv_keep [OF assms] by (simp add: Let_def)
next
  case (Some pending)
  show ?thesis
  proof (cases "acc s")
    case None
    with Some show ?thesis
      using inv_keep [OF assms] by (simp add: Let_def)
  next
    case (Some a)
    with \<open>op s = Some pending\<close> show ?thesis
      using inv_keep [OF assms] inv_formatted
      by (simp add: Let_def split: bool.splits del: applyOp.simps)
  qed
qed

lemma inv_equals:
  assumes "display_inv s"
  shows "display_inv (reducer s EQUALS)"
proof -
  have k: "display_inv (s\<lparr>justEvaluated := True, entering := False\<rparr>)"
    using assms by (auto simp: display_inv_def)
  show ?thesis
    using k inv_formatted
    by (cases "op s"; cases "acc s") (simp_all add: Let_def del: applyOp.simps)
qed

lemma reducer_inv:
  assumes "display_inv s" "key_action a"
  shows "display_inv (reducer s a)"
proof (cases a)
  case (DIGIT d)
  with assms inv_digit show ?thesis by simp
next
  case DOT
  with assms inv_dot show ?thesis by simp
next
  case CLEAR
  with plain_literal_zero(1) show ?thesis
    by (simp add: display_inv_def initialState_def)
next
  case TOGGLE_SIGN
  with assms inv_toggle show ?thesis by simp
next
  case PERCENT
  with assms inv_percent show ?thesis by simp
next
  case (OP x)
  with assms inv_op show ?thesis by simp
next
  case EQUALS
  with assms inv_equals show ?thesis by simp
qed

lemma reachable_inv: "reachable_by_keys s \<Longrightarrow> display_inv s"
proof (induction rule: reachable_by_keys.induct)
  case keys_init
  with plain_literal_zero(1) show ?case
    by (simp add: display_inv_def initialState_def)
next
  case (keys_step s a)
  then show ?case by (simp add: reducer_inv)
qed

lemma unsigned_plain_numeric: "unsigned_plain u \<Longrightarrow> parse_unsigned_decimal u \<noteq> None"
proof -
  assume u: "unsigned_plain u"
  then have ip: "takeWhile is_digit u \<noteq> []"
    by (simp add: unsigned_plain_def)
  show ?thesis
  proof (cases "dropWhile is_digit u")
    case Nil
    with ip show ?thesis
      by (simp add: parse_unsigned_decimal_def parse_exponent_def Let_def
          del: dropWhile_eq_Nil_conv)
  next
    case (Cons c fp)
    with u have c: "c = CHR ''.''" and fp: "list_all is_digit fp"
      by (simp_all add: unsigned_plain_def)
    from fp have "dropWhile is_digit fp = []"
      by (simp add: list_all_iff)
    with ip Cons c show ?thesis
      by (simp add: parse_unsigned_decimal_def parse_exponent_def Let_def
          del: dropWhile_eq_Nil_conv)
  qed
qed

lemma unsigned_plain_head: "unsigned_plain (c # u) \<Longrightarrow> is_digit c"
  by (auto simp: unsigned_plain_def split: if_splits)

lemma plain_literal_numeric: "plain_literal s \<Longrightarrow> numeric_literal s"
proof (cases s)
  case Nil
  assume "plain_literal s"
  with Nil show ?thesis by (simp add: plain_literal_def)
next
  case (Cons c u)
  assume p: "plain_literal s"
  show ?thesis
  proof (cases "c = CHR ''-''")
    case True
    with p Cons have "unsigned_plain u" by (simp add: plain_literal_def)
    from unsigned_plain_numeric [OF this] True Cons show ?thesis
      by (simp add: numeric_literal_def)
  next
    case False
    with p Cons have up: "unsigned_plain (c # u)" by (simp add: plain_literal_def)
    then have "is_digit c" by (rule unsigned_plain_head)
    then have "c \<noteq> CHR ''+''" by auto
    with unsigned_plain_numeric [OF up] False Cons show ?thesis
      by (simp add: numeric_literal_def)
  qed
qed

text \<open>
  While the display has no exponent mark \<open>e\<close>, it is \<open>Error\<close> or a numeric literal, in
  every state reachable by key presses.
\<close>

lemma valid_unless_exponent:
  assumes "reachable_by_keys s" and "CHR ''e'' \<notin> set (display s)"
  shows "valid_display (display s)"
proof -
  from assms(1) have "display_inv s" by (rule reachable_inv)
  with assms(2) have "display s = ''Error'' \<or> plain_literal (display s)"
    by (auto simp: display_inv_def sci_text_def)
  then show ?thesis
    by (auto simp: valid_display_def dest: plain_literal_numeric)
qed

text \<open>
  C2. The display is to be a numeric literal, possibly ending in a point, or \<open>Error\<close>,
  in every reachable state. The reducer keeps it so for plain literals (no leading zero,
  no second point, no negative zero), but not once a number has been formatted in
  scientific notation while the operand is still being entered: the keys 1, twenty-one
  times 0, the sign toggle, the point and 5 append the point and the digit to the exponent
  and leave \<open>-1e+21.5\<close>. That is not \<open>Error\<close> and no numeric literal, with or without a
  trailing point; it is read back as 0, so that +, 1, = then shows 1.
\<close>

theorem display_after_exponent:
  "reachable_by_keys
     (run initialState
        (DIGIT ''1'' # replicate 21 (DIGIT ''0'') @ [TOGGLE_SIGN, DOT, DIGIT ''5'']))
   \<and> display
     (run initialState
        (DIGIT ''1'' # replicate 21 (DIGIT ''0'') @ [TOGGLE_SIGN, DOT, DIGIT ''5'']))
     = ''-1e+21.5''
   \<and> \<not> valid_display ''-1e+21.5''
   \<and> toNumber ''-1e+21.5'' = Num 0
   \<and> display
     (run initialState
        (DIGIT ''1'' # replicate 21 (DIGIT ''0'')
           @ [TOGGLE_SIGN, DOT, DIGIT ''5'', OP Plus, DIGIT ''1'', EQUALS]))
     = ''1''"
proof -
  have "list_all key_action
      (DIGIT ''1'' # replicate 21 (DIGIT ''0'') @ [TOGGLE_SIGN, DOT, DIGIT ''5''])"
    by code_simp
  then have "reachable_by_keys
     (run initialState
        (DIGIT ''1'' # replicate 21 (DIGIT ''0'') @ [TOGGLE_SIGN, DOT, DIGIT ''5'']))"
    by (rule reachable_by_keys_run)
  moreover have "display
     (run initialState
        (DIGIT ''1'' # replicate 21 (DIGIT ''0'') @ [TOGGLE_SIGN, DOT, DIGIT ''5'']))
     = ''-1e+21.5''"
    by code_simp
  moreover have "\<not> valid_display ''-1e+21.5''"
    by code_simp
  moreover have "toNumber ''-1e+21.5'' = Num 0"
    by code_simp
  moreover have "display
     (run initialState
        (DIGIT ''1'' # replicate 21 (DIGIT ''0'')
           @ [TOGGLE_SIGN, DOT, DIGIT ''5'', OP Plus, DIGIT ''1'', EQUALS]))
     = ''1''"
    by code_simp
  ultimately show ?thesis by simp
qed

end
